theory Spec2Isabelle
  imports Main "HOL-Library.Multiset"
begin

section \<open>Data model\<close>

text \<open>
  A poem is one entry of the JSON corpus \<^verbatim>\<open>hyakunin_isshu.json\<close>. The source reads the
  keys \<^verbatim>\<open>id\<close>, \<^verbatim>\<open>upper\<close>, \<^verbatim>\<open>lower\<close>, \<^verbatim>\<open>reading_upper\<close>, \<^verbatim>\<open>reading_lower\<close>, \<^verbatim>\<open>author\<close> and
  \<^verbatim>\<open>description\<close>. The key \<^verbatim>\<open>id\<close> is called \<open>id_poem\<close> here, because \<open>id\<close> is the identity
  function of HOL.
\<close>

record poem =
  id_poem :: int
  upper :: string
  lower :: string
  reading_upper :: string
  reading_lower :: string
  author :: string
  description :: string

text \<open>
  The two values of the sidebar radio: the first is the ordering by id, the second the
  random ordering. \<^verbatim>\<open>initialize_quiz\<close> shuffles for the second and sorts for everything else.
\<close>

datatype mode_sel = IdOrder | Random

datatype error = AttributeError | ValueError | TypeError | IndexError

text \<open>
  \<^verbatim>\<open>st.session_state\<close> is a key-value store. Every key the program uses is a field; \<open>None\<close>
  says that the key is absent (reading or deleting an absent key raises \<^verbatim>\<open>AttributeError\<close>).
  The key \<^verbatim>\<open>all_poems\<close> holds the return value of \<^verbatim>\<open>load_data\<close>, which is itself \<^verbatim>\<open>None\<close>
  when the file is missing, hence the nested option.
\<close>

record session =
  mode :: "mode_sel option"
  all_poems :: "poem list option option"
  question_list :: "int list option"
  current_question_index :: "int option"
  score :: "int option"
  is_answered :: "bool option"
  options :: "string list option"
  correct_answer :: "string option"
  user_last_answer :: "string option"

definition fresh_session :: session where
  "fresh_session = \<lparr> mode = None, all_poems = None, question_list = None,
     current_question_index = None, score = None, is_answered = None,
     options = None, correct_answer = None, user_last_answer = None \<rparr>"

type_synonym result = "(error \<times> session) + session"

section \<open>The random module\<close>

text \<open>
  The draws of the random generator are an argument: \<open>rnd i\<close> is the raw number drawn at
  step \<open>i\<close>, and \<^verbatim>\<open>randbelow(n)\<close> is that number modulo \<open>n\<close>.

  \<^verbatim>\<open>random.shuffle(x)\<close> is
  \<^verbatim>\<open>for i in reversed(range(1, len(x))): j = randbelow(i + 1); x[i], x[j] = x[j], x[i]\<close>.
\<close>

definition swap_at :: "nat \<Rightarrow> nat \<Rightarrow> 'a list \<Rightarrow> 'a list" where
  "swap_at i j xs = xs[i := xs ! j, j := xs ! i]"

definition shuffle :: "(nat \<Rightarrow> nat) \<Rightarrow> 'a list \<Rightarrow> 'a list" where
  "shuffle rnd xs =
     fold (\<lambda>i ys. swap_at i (rnd i mod (i + 1)) ys) (rev [1..<length xs]) xs"

text \<open>
  \<^verbatim>\<open>random.sample(population, k)\<close> raises \<^verbatim>\<open>ValueError\<close> when \<open>k\<close> exceeds the size of the
  population, and otherwise returns the elements at \<open>k\<close> pairwise different positions,
  chosen without replacement:
  \<^verbatim>\<open>pool = list(population)
  for i in range(k): j = randbelow(n - i); result[i] = pool[j]; pool[j] = pool[n - i - 1]\<close>.
  For large populations the library tracks the chosen positions in a set and redraws on a
  repetition instead; the results it can return are the same, the elements at \<open>k\<close> pairwise
  different positions in the order they were drawn. The lemmas \<open>sample_positions\<close> and
  \<open>sample_reaches\<close> below show that the model returns exactly these lists.
\<close>

fun sample_pool :: "(nat \<Rightarrow> nat) \<Rightarrow> nat \<Rightarrow> nat \<Rightarrow> nat \<Rightarrow> 'a list \<Rightarrow> 'a list" where
  "sample_pool rnd n i 0 pool = []"
| "sample_pool rnd n i (Suc k) pool =
     (let j = rnd i mod (n - i)
      in pool ! j # sample_pool rnd n (Suc i) k (pool[j := pool ! (n - i - 1)]))"

definition sample :: "(nat \<Rightarrow> nat) \<Rightarrow> 'a list \<Rightarrow> nat \<Rightarrow> error + 'a list" where
  "sample rnd population k =
     (if k \<le> length population
      then Inr (sample_pool rnd (length population) 0 k population)
      else Inl ValueError)"

text \<open>Python's \<^verbatim>\<open>xs[i]\<close>: a negative index counts from the end of the list.\<close>

definition getitem :: "'a list \<Rightarrow> int \<Rightarrow> error + 'a" where
  "getitem xs i =
     (if 0 \<le> i \<and> i < int (length xs) then Inr (xs ! nat i)
      else if i < 0 \<and> - int (length xs) \<le> i then Inr (xs ! nat (int (length xs) + i))
      else Inl IndexError)"

section \<open>The program\<close>

text \<open>
  \<^verbatim>\<open>initialize_quiz(mode)\<close>, lines 21 to 51. The argument \<open>loaded\<close> is what \<^verbatim>\<open>load_data()\<close>
  returns: \<open>None\<close> when the file is missing. The function writes \<^verbatim>\<open>mode\<close> and \<^verbatim>\<open>all_poems\<close>
  before it looks at the corpus, and returns early when there is none. It never deletes the
  key \<^verbatim>\<open>correct_answer\<close>.
\<close>

definition initialize_quiz ::
    "(nat \<Rightarrow> nat) \<Rightarrow> mode_sel \<Rightarrow> poem list option \<Rightarrow> session \<Rightarrow> session" where
  "initialize_quiz rnd m loaded st =
     (let st1 = st\<lparr>mode := Some m, all_poems := Some loaded\<rparr>
      in case loaded of
           None \<Rightarrow> st1
         | Some ps \<Rightarrow>
             (let ids = map id_poem ps;
                  ids' = (if m = Random then shuffle rnd ids else sort ids)
              in st1\<lparr>question_list := Some ids',
                     current_question_index := Some 0,
                     score := Some 0,
                     is_answered := Some False,
                     options := None,
                     user_last_answer := None\<rparr>))"

text \<open>
  Lines 93 to 117: the preparation of the current question. \<open>ps\<close> is the module-level
  \<^verbatim>\<open>all_poems\<close>. Options are generated only when the key \<^verbatim>\<open>options\<close> is absent; \<open>rs\<close> are the
  draws of \<^verbatim>\<open>random.sample\<close> and \<open>ro\<close> those of \<^verbatim>\<open>random.shuffle\<close>. An exception leaves the
  session as it was, since both writes come last.
\<close>

definition ensure_options ::
    "(nat \<Rightarrow> nat) \<Rightarrow> (nat \<Rightarrow> nat) \<Rightarrow> poem list \<Rightarrow> session \<Rightarrow> result" where
  "ensure_options rs ro ps st =
     (case current_question_index st of
        None \<Rightarrow> Inl (AttributeError, st)
      | Some q_index \<Rightarrow>
     (case question_list st of
        None \<Rightarrow> Inl (AttributeError, st)
      | Some ql \<Rightarrow>
          if q_index < int (length ql) then
            (case getitem ql q_index of
               Inl e \<Rightarrow> Inl (e, st)
             | Inr q_id \<Rightarrow>
                 (let current_poem = find (\<lambda>p. id_poem p = q_id) ps
                  in if options st = None then
                       (case current_poem of
                          None \<Rightarrow> Inl (TypeError, st)
                        | Some cp \<Rightarrow>
                            (let correct_lower = lower cp;
                                 all_lowers = map lower (filter (\<lambda>p. id_poem p \<noteq> q_id) ps)
                             in case sample rs all_lowers 3 of
                                  Inl e \<Rightarrow> Inl (e, st)
                                | Inr wrong_options \<Rightarrow>
                                    Inr (st\<lparr>options :=
                                              Some (shuffle ro (wrong_options @ [correct_lower])),
                                            correct_answer := Some correct_lower\<rparr>)))
                     else Inr st))
          else Inr st))"

text \<open>
  Lines 213 to 223, the submit button, under the guards that lead to it: a question remains
  (line 96) and it is not answered yet (lines 133 and 211). Elsewhere the button does not
  exist and nothing happens. \<open>user_answer\<close> is the value of the radio widget; Streamlit
  returns one of the displayed options, the model admits any string.
\<close>

definition submit_handler :: "string \<Rightarrow> session \<Rightarrow> result" where
  "submit_handler user_answer st =
     (case current_question_index st of
        None \<Rightarrow> Inl (AttributeError, st)
      | Some q_index \<Rightarrow>
     (case question_list st of
        None \<Rightarrow> Inl (AttributeError, st)
      | Some ql \<Rightarrow>
          if q_index < int (length ql) then
            (case is_answered st of
               None \<Rightarrow> Inl (AttributeError, st)
             | Some a \<Rightarrow>
                 if a then Inr st
                 else
                   (let st1 = st\<lparr>user_last_answer := Some user_answer,
                                  is_answered := Some True\<rparr>
                    in case correct_answer st1 of
                         None \<Rightarrow> Inl (AttributeError, st1)
                       | Some c \<Rightarrow>
                           if user_answer = c then
                             (case score st1 of
                                None \<Rightarrow> Inl (AttributeError, st1)
                              | Some s \<Rightarrow> Inr (st1\<lparr>score := Some (s + 1)\<rparr>))
                           else Inr st1))
          else Inr st))"

text \<open>
  Lines 202 to 208, the button for the next question, under its guards: a question remains
  (line 96) and it is answered (line 133). The key \<^verbatim>\<open>correct_answer\<close> is not deleted. Deleting
  an absent key raises after the earlier writes have been made. The reads of line 135, which
  come before the button, belong to the page (\<open>question_page\<close> below).
\<close>

definition next_handler :: "session \<Rightarrow> result" where
  "next_handler st =
     (case current_question_index st of
        None \<Rightarrow> Inl (AttributeError, st)
      | Some q_index \<Rightarrow>
     (case question_list st of
        None \<Rightarrow> Inl (AttributeError, st)
      | Some ql \<Rightarrow>
          if q_index < int (length ql) then
            (case is_answered st of
               None \<Rightarrow> Inl (AttributeError, st)
             | Some a \<Rightarrow>
                 if a then
                   (let st1 = st\<lparr>current_question_index := Some (q_index + 1),
                                  is_answered := Some False\<rparr>
                    in if options st1 = None then Inl (AttributeError, st1)
                       else
                         (let st2 = st1\<lparr>options := None\<rparr>
                          in if user_last_answer st2 = None then Inl (AttributeError, st2)
                             else Inr (st2\<lparr>user_last_answer := None\<rparr>)))
                 else Inr st)
          else Inr st))"

text \<open>
  One run of the script, lines 78 to 234. Streamlit runs the whole script again after every
  interaction; what the widgets return in a run is the input of that run: the sidebar
  selection, the value of the answer radio, which button was clicked, and the draws of the
  random generator. \<^verbatim>\<open>load_data\<close> is cached, so both of its calls in a run return \<open>loaded\<close>.
  A run ends by showing a page, by \<^verbatim>\<open>st.rerun()\<close>, or by an exception; the session keeps
  every write made until then.
\<close>

datatype page = LoadError | Blank | Question int bool | Finished int nat

datatype outcome = Raised error | Rerun | Shown page

record inputs =
  mode_selector :: mode_sel
  radio_value :: string
  submit_button :: bool
  next_button :: bool
  retry_button :: bool
  rnd_order :: "nat \<Rightarrow> nat"
  rnd_sample :: "nat \<Rightarrow> nat"
  rnd_options :: "nat \<Rightarrow> nat"

text \<open>Lines 119 to 223: the page of the current question and its two buttons.\<close>

definition question_page :: "inputs \<Rightarrow> int \<Rightarrow> session \<Rightarrow> outcome \<times> session" where
  "question_page inp q_index st2 =
     (case options st2 of
        None \<Rightarrow> (Raised AttributeError, st2)
      | Some opts \<Rightarrow>
     (case is_answered st2 of
        None \<Rightarrow> (Raised AttributeError, st2)
      | Some a \<Rightarrow>
          if a then
            (if user_last_answer st2 = None \<or> correct_answer st2 = None
             then (Raised AttributeError, st2)
             else if next_button inp then
               (case next_handler st2 of
                  Inl (e, s) \<Rightarrow> (Raised e, s)
                | Inr s \<Rightarrow> (Rerun, s))
             else (Shown (Question q_index True), st2))
          else
            (if submit_button inp then
               (case submit_handler (radio_value inp) st2 of
                  Inl (e, s) \<Rightarrow> (Raised e, s)
                | Inr s \<Rightarrow> (Rerun, s))
             else (Shown (Question q_index False), st2))))"

text \<open>Lines 226 to 234: the final page and the button that starts again in the same mode.\<close>

definition result_page ::
    "inputs \<Rightarrow> poem list option \<Rightarrow> int list \<Rightarrow> session \<Rightarrow> outcome \<times> session" where
  "result_page inp loaded ql st2 =
     (case score st2 of
        None \<Rightarrow> (Raised AttributeError, st2)
      | Some sc \<Rightarrow>
          if retry_button inp then
            (case mode st2 of
               None \<Rightarrow> (Raised AttributeError, st2)
             | Some m \<Rightarrow> (Rerun, initialize_quiz (rnd_order inp) m loaded st2))
          else (Shown (Finished sc (length ql)), st2))"

text \<open>Lines 78 to 117, and the choice between the two pages.\<close>

definition script :: "inputs \<Rightarrow> poem list option \<Rightarrow> session \<Rightarrow> outcome \<times> session" where
  "script inp loaded st =
     (case loaded of
        None \<Rightarrow> (Shown LoadError, st)
      | Some ps \<Rightarrow>
          if ps = [] then (Shown Blank, st)
          else
            (let st1 = (if mode st = None \<or> mode st \<noteq> Some (mode_selector inp)
                        then initialize_quiz (rnd_order inp) (mode_selector inp) loaded st
                        else st)
             in case ensure_options (rnd_sample inp) (rnd_options inp) ps st1 of
                  Inl (e, s) \<Rightarrow> (Raised e, s)
                | Inr st2 \<Rightarrow>
                    (case current_question_index st2 of
                       None \<Rightarrow> (Raised AttributeError, st2)
                     | Some q_index \<Rightarrow>
                    (case question_list st2 of
                       None \<Rightarrow> (Raised AttributeError, st2)
                     | Some ql \<Rightarrow>
                         if q_index < int (length ql) then
                           (case getitem ql q_index of
                              Inl e \<Rightarrow> (Raised e, st2)
                            | Inr q_id \<Rightarrow>
                                (case find (\<lambda>p. id_poem p = q_id) ps of
                                   None \<Rightarrow> (Raised TypeError, st2)
                                 | Some current_poem \<Rightarrow> question_page inp q_index st2))
                         else result_page inp loaded ql st2))))"

section \<open>Reachable sessions\<close>

text \<open>The session an operation leaves behind, whether it returned or raised.\<close>

definition state_after :: "result \<Rightarrow> session" where
  "state_after r = (case r of Inl (e, s) \<Rightarrow> s | Inr s \<Rightarrow> s)"

text \<open>
  The sessions that any sequence of the four operations produces from a fresh session,
  with any corpus, any answer and any draws at each step.
\<close>

inductive reachable :: "session \<Rightarrow> bool" where
  fresh: "reachable fresh_session"
| init: "reachable st \<Longrightarrow> reachable (initialize_quiz rnd m loaded st)"
| ensure: "reachable st \<Longrightarrow> reachable (state_after (ensure_options rs ro ps st))"
| submit: "reachable st \<Longrightarrow> reachable (state_after (submit_handler user_answer st))"
| advance: "reachable st \<Longrightarrow> reachable (state_after (next_handler st))"

text \<open>
  The bound on the score: it never exceeds the number of questions answered, which is
  \<open>index\<close> between questions and \<open>index + 1\<close> once the current question is answered. Before
  the first initialisation none of the three keys exists.
\<close>

definition score_inv :: "session \<Rightarrow> bool" where
  "score_inv st =
     (case (current_question_index st, score st, is_answered st) of
        (Some i, Some s, Some a) \<Rightarrow> 0 \<le> s \<and> s \<le> (if a then i + 1 else i)
      | (None, None, None) \<Rightarrow> True
      | _ \<Rightarrow> False)"

section \<open>Example data\<close>

text \<open>
  Small corpora and sessions on which the theorems below are evaluated: five poems with
  different second halves, three poems (too few for three decoys), and five poems of which
  the first two share their second half.
\<close>

definition mk_poem :: "int \<Rightarrow> string \<Rightarrow> string \<Rightarrow> poem" where
  "mk_poem i u l = \<lparr> id_poem = i, upper = u, lower = l, reading_upper = [],
     reading_lower = [], author = [], description = [] \<rparr>"

definition example_corpus :: "poem list" where
  "example_corpus = [mk_poem 3 ''u3'' ''l3'', mk_poem 1 ''u1'' ''l1'', mk_poem 2 ''u2'' ''l2'',
     mk_poem 5 ''u5'' ''l5'', mk_poem 4 ''u4'' ''l4'']"


definition twin_corpus :: "poem list" where
  "twin_corpus = [mk_poem 1 ''u1'' ''same'', mk_poem 2 ''u2'' ''same'', mk_poem 3 ''u3'' ''l3'',
     mk_poem 4 ''u4'' ''l4'', mk_poem 5 ''u5'' ''l5'']"

definition zero_draws :: "nat \<Rightarrow> nat" where
  "zero_draws i = 0"

definition example_started :: session where
  "example_started = initialize_quiz zero_draws IdOrder (Some example_corpus) fresh_session"

definition example_asked :: session where
  "example_asked =
     state_after (ensure_options zero_draws zero_draws example_corpus example_started)"

definition example_answered :: session where
  "example_answered = state_after (submit_handler ''l1'' example_asked)"

definition example_inputs :: inputs where
  "example_inputs = \<lparr> mode_selector = IdOrder, radio_value = ''l1'', submit_button = False,
     next_button = False, retry_button = False, rnd_order = zero_draws,
     rnd_sample = zero_draws, rnd_options = zero_draws \<rparr>"

section \<open>Facts about the random module\<close>

text \<open>A shuffle is a permutation, whatever the draws.\<close>

lemma mset_swap_at: "i < length xs \<Longrightarrow> j < length xs \<Longrightarrow> mset (swap_at i j xs) = mset xs"
  unfolding swap_at_def by (simp add: mset_swap)

lemma length_swap_at: "length (swap_at i j xs) = length xs"
  by (simp add: swap_at_def)

lemma mset_fold_swaps:
  "\<forall>i \<in> set is. i < length xs \<Longrightarrow>
   mset (fold (\<lambda>i ys. swap_at i (rnd i mod (i + 1)) ys) is xs) = mset xs"
proof (induction "is" arbitrary: xs)
  case Nil
  then show ?case by simp
next
  case (Cons i "is")
  have i: "i < length xs" using Cons.prems by simp
  have "rnd i mod (i + 1) < i + 1" by simp
  with i have j: "rnd i mod (i + 1) < length xs" by linarith
  have "mset (fold (\<lambda>i ys. swap_at i (rnd i mod (i + 1)) ys) is (swap_at i (rnd i mod (i + 1)) xs))
        = mset (swap_at i (rnd i mod (i + 1)) xs)"
    using Cons.prems by (intro Cons.IH) (simp add: length_swap_at)
  then show ?case using i j by (simp add: mset_swap_at)
qed

lemma mset_shuffle: "mset (shuffle rnd xs) = mset xs"
  unfolding shuffle_def by (rule mset_fold_swaps) simp

lemma length_shuffle: "length (shuffle rnd xs) = length xs"
  using mset_shuffle [of rnd xs] by (rule mset_eq_length)

lemma set_shuffle: "set (shuffle rnd xs) = set xs"
  using mset_shuffle [of rnd xs] by (rule mset_eq_setD)

lemma distinct_shuffle: "distinct (shuffle rnd xs) = distinct xs"
  using mset_shuffle [of rnd xs] by (rule mset_eq_imp_distinct_iff)

lemma length_sample_pool: "length (sample_pool rnd n i k pool) = k"
  by (induction k arbitrary: i pool) (simp_all add: Let_def)

lemma mset_take_replace:
  assumes "j < m" "m \<le> length pool"
  shows "add_mset (pool ! j) (mset (take (m - 1) (pool[j := pool ! (m - 1)]))) = mset (take m pool)"
proof -
  obtain m' where m: "m = Suc m'" using assms(1) by (cases m) auto
  have tk: "take m pool = take m' pool @ [pool ! m']"
    using assms(2) m by (simp add: take_Suc_conv_app_nth)
  show ?thesis
  proof (cases "j = m'")
    case True
    then show ?thesis using tk m by simp
  next
    case False
    then have jl: "j < m'" using assms(1) m by simp
    then have "j < length (take m' pool)" using assms(2) m by simp
    then have "mset ((take m' pool)[j := pool ! m']) =
               add_mset (pool ! m') (mset (take m' pool) - {#take m' pool ! j#})"
      by (simp add: mset_update)
    moreover have "take m' pool ! j = pool ! j" using jl by simp
    moreover have "take m' pool ! j \<in> set (take m' pool)"
      using \<open>j < length (take m' pool)\<close> by (rule nth_mem)
    then have "pool ! j \<in># mset (take m' pool)"
      using jl by simp
    ultimately show ?thesis using tk m by (simp add: take_update_swap)
  qed
qed

lemma mset_sample_pool:
  "i + k \<le> n \<Longrightarrow> n \<le> length pool \<Longrightarrow>
   mset (sample_pool rnd n i k pool) \<subseteq># mset (take (n - i) pool)"
proof (induction k arbitrary: i pool)
  case 0
  then show ?case by simp
next
  case (Suc k)
  let ?j = "rnd i mod (n - i)"
  let ?pool = "pool[?j := pool ! (n - i - 1)]"
  have pos: "0 < n - i" using Suc.prems by simp
  then have j: "?j < n - i" by simp
  have m: "n - i \<le> length pool" using Suc.prems by simp
  have "mset (sample_pool rnd n (Suc i) k ?pool) \<subseteq># mset (take (n - Suc i) ?pool)"
    using Suc.prems by (intro Suc.IH) simp_all
  then have "add_mset (pool ! ?j) (mset (sample_pool rnd n (Suc i) k ?pool))
             \<subseteq># add_mset (pool ! ?j) (mset (take (n - i - 1) ?pool))"
    by simp
  also have "\<dots> = mset (take (n - i) pool)"
    using mset_take_replace [OF j m] by simp
  finally show ?case by (simp add: Let_def)
qed

lemma sample_ok:
  assumes "k \<le> length pop"
  shows "\<exists>ws. sample rnd pop k = Inr ws \<and> length ws = k \<and> mset ws \<subseteq># mset pop"
  using assms mset_sample_pool [of 0 k "length pop" pop rnd]
  by (simp add: sample_def length_sample_pool)


lemma distinct_submultiset:
  assumes sub: "mset ws \<subseteq># mset xs" and d: "distinct xs"
  shows "distinct ws"
proof -
  have "count (mset ws) a = (if a \<in> set ws then 1 else 0)" for a
  proof (cases "a \<in> set ws")
    case True
    then have "1 \<le> count (mset ws) a" by simp
    moreover have "count (mset ws) a \<le> count (mset xs) a"
      using sub by (rule mset_subset_eq_count)
    moreover have "count (mset xs) a \<le> 1"
      using d by (simp add: distinct_count_atmost_1)
    ultimately have "count (mset ws) a = 1" by linarith
    then show ?thesis using True by simp
  next
    case False
    then show ?thesis by simp
  qed
  then show ?thesis by (simp add: distinct_count_atmost_1)
qed

lemma set_submultiset: "mset ws \<subseteq># mset xs \<Longrightarrow> set ws \<subseteq> set xs"
  using set_mset_mono [of "mset ws" "mset xs"] by simp


text \<open>
  The model of \<^verbatim>\<open>random.sample\<close> returns exactly the selections at pairwise different
  positions: every result is one (\<open>sample_positions\<close>), and every such selection is the
  result for some draws (\<open>sample_reaches\<close>).
\<close>

lemma sample_pool_map:
  "i + k \<le> n \<Longrightarrow> length ix = n \<Longrightarrow>
   sample_pool rnd n i k (map f ix) = map f (sample_pool rnd n i k ix)"
proof (induction k arbitrary: i ix)
  case 0
  then show ?case by simp
next
  case (Suc k)
  let ?j = "rnd i mod (n - i)"
  have pos: "0 < n - i" using Suc.prems by simp
  then have j: "?j < n - i" by simp
  then have jl: "?j < length ix" using Suc.prems by linarith
  have l: "n - i - 1 < length ix" using Suc.prems by simp
  have "sample_pool rnd n (Suc i) k (map f (ix[?j := ix ! (n - i - 1)]))
        = map f (sample_pool rnd n (Suc i) k (ix[?j := ix ! (n - i - 1)]))"
    using Suc.prems by (intro Suc.IH) simp_all
  then show ?case using jl l by (simp add: Let_def map_update)
qed

lemma sample_pool_congruent:
  "\<forall>t \<ge> i. rnd t = rnd' t \<Longrightarrow>
   sample_pool rnd n i k (pool :: 'a list) = sample_pool rnd' n i k pool"
proof (induction k arbitrary: i pool)
  case 0
  then show ?case by simp
next
  case (Suc k)
  have "rnd i = rnd' i" using Suc.prems by simp
  moreover have "\<forall>t \<ge> Suc i. rnd t = rnd' t" using Suc.prems by simp
  then have "sample_pool rnd n (Suc i) k pool' = sample_pool rnd' n (Suc i) k pool'"
    for pool' :: "'a list" by (rule Suc.IH)
  ultimately show ?case by (simp add: Let_def)
qed

lemma sample_positions:
  assumes "sample rnd pop k = Inr ws"
  shows "\<exists>js. distinct js \<and> length js = k \<and> (\<forall>j \<in> set js. j < length pop)
           \<and> ws = map (\<lambda>j. pop ! j) js"
proof -
  let ?n = "length pop"
  let ?js = "sample_pool rnd ?n 0 k [0..<?n]"
  have k: "k \<le> ?n" using assms by (simp add: sample_def split: if_splits)
  have ws: "ws = sample_pool rnd ?n 0 k pop" using assms k by (simp add: sample_def)
  have "sample_pool rnd ?n 0 k (map (\<lambda>j. pop ! j) [0..<?n]) = map (\<lambda>j. pop ! j) ?js"
    using k by (intro sample_pool_map) simp_all
  then have m: "ws = map (\<lambda>j. pop ! j) ?js" using ws by (simp add: map_nth)
  have sub: "mset ?js \<subseteq># mset [0..<?n]"
    using mset_sample_pool [of 0 k ?n "[0..<?n]" rnd] k by simp
  have d: "distinct ?js" using sub by (rule distinct_submultiset) simp
  have "set ?js \<subseteq> set [0..<?n]" using sub by (rule set_submultiset)
  then have r: "\<forall>j \<in> set ?js. j < ?n" by auto
  have l: "length ?js = k" by (rule length_sample_pool)
  from d l r m show ?thesis by (intro exI conjI)
qed

lemma sample_pool_reaches:
  "distinct js \<Longrightarrow> set js \<subseteq> set (take (n - i) ix) \<Longrightarrow> distinct (take (n - i) ix) \<Longrightarrow>
   n \<le> length ix \<Longrightarrow> i \<le> n \<Longrightarrow>
   \<exists>rnd. sample_pool rnd n i (length js) ix = js"
proof (induction js arbitrary: i ix)
  case Nil
  then show ?case by simp
next
  case (Cons j0 js)
  let ?m = "n - i"
  have "j0 \<in> set (take ?m ix)" using Cons.prems(2) by simp
  then have "\<exists>p < length (take ?m ix). take ?m ix ! p = j0" by (simp only: in_set_conv_nth)
  then obtain p where p: "p < ?m" "ix ! p = j0" using Cons.prems(4) by auto
  let ?ix = "ix[p := ix ! (?m - 1)]"
  have m: "?m \<le> length ix" using Cons.prems(4) by simp
  have ms: "add_mset j0 (mset (take (?m - 1) ?ix)) = mset (take ?m ix)"
    using mset_take_replace [OF p(1) m] p(2) by simp
  have "mset (take (?m - 1) ?ix) \<subseteq># mset (take ?m ix)"
    unfolding ms [symmetric] by simp
  then have d': "distinct (take (?m - 1) ?ix)"
    using Cons.prems(3) by (rule distinct_submultiset)
  have cnt: "count (mset (take ?m ix)) j0 = 1"
    using Cons.prems(3) \<open>j0 \<in> set (take ?m ix)\<close> by (simp add: distinct_count_atmost_1)
  have "count (mset (take (?m - 1) ?ix)) j0 = 0"
    using cnt unfolding ms [symmetric] by simp
  then have notin: "j0 \<notin> set (take (?m - 1) ?ix)" by simp
  have "set (take ?m ix) = insert j0 (set (take (?m - 1) ?ix))"
    using arg_cong [OF ms, of set_mset] by simp
  then have sub': "set js \<subseteq> set (take (n - Suc i) ?ix)"
    using Cons.prems(1,2) by auto
  have i': "Suc i \<le> n" using p(1) by simp
  have "\<exists>rnd. sample_pool rnd n (Suc i) (length js) ?ix = js"
    using Cons.prems(1) sub' d' Cons.prems(4) i' by (intro Cons.IH) simp_all
  then obtain rnd' where r': "sample_pool rnd' n (Suc i) (length js) ?ix = js" by blast
  define rnd where "rnd = rnd'(i := p)"
  have "sample_pool rnd n (Suc i) (length js) ?ix = sample_pool rnd' n (Suc i) (length js) ?ix"
    by (rule sample_pool_congruent) (simp add: rnd_def)
  moreover have "rnd i mod ?m = p" using p(1) by (simp add: rnd_def)
  ultimately have "sample_pool rnd n i (length (j0 # js)) ix = j0 # js"
    using r' p(2) by (simp add: Let_def)
  then show ?case by blast
qed

lemma sample_reaches:
  assumes "distinct js" and "\<forall>j \<in> set js. j < length pop"
  shows "\<exists>rnd. sample rnd pop (length js) = Inr (map (\<lambda>j. pop ! j) js)"
proof -
  let ?n = "length pop"
  have sub: "set js \<subseteq> set (take (?n - 0) [0..<?n])" using assms(2) by auto
  have "\<exists>rnd. sample_pool rnd ?n 0 (length js) [0..<?n] = js"
    using assms(1) sub by (rule sample_pool_reaches) simp_all
  then obtain rnd where r: "sample_pool rnd ?n 0 (length js) [0..<?n] = js" by blast
  have "card (set js) \<le> card (set [0..<?n])" using sub by (intro card_mono) simp_all
  then have k: "length js \<le> ?n" using assms(1) by (simp add: distinct_card)
  have "sample_pool rnd ?n 0 (length js) (map (\<lambda>j. pop ! j) [0..<?n])
        = map (\<lambda>j. pop ! j) (sample_pool rnd ?n 0 (length js) [0..<?n])"
    using k by (intro sample_pool_map) simp_all
  then have "sample_pool rnd ?n 0 (length js) pop = map (\<lambda>j. pop ! j) js"
    using r by (simp add: map_nth)
  then have "sample rnd pop (length js) = Inr (map (\<lambda>j. pop ! j) js)"
    using k by (simp add: sample_def)
  then show ?thesis by blast
qed

section \<open>Facts about the operations\<close>

lemma initialize_quiz_loaded:
  "initialize_quiz rnd m (Some ps) st =
     st\<lparr>mode := Some m, all_poems := Some (Some ps),
        question_list := Some (if m = Random then shuffle rnd (map id_poem ps)
                               else sort (map id_poem ps)),
        current_question_index := Some 0, score := Some 0, is_answered := Some False,
        options := None, user_last_answer := None\<rparr>"
  by (simp add: initialize_quiz_def Let_def)

lemma initialize_quiz_missing:
  "initialize_quiz rnd m None st = st\<lparr>mode := Some m, all_poems := Some None\<rparr>"
  by (simp add: initialize_quiz_def)

lemma mset_order:
  "mset (if m = Random then shuffle rnd ids else sort ids) = mset ids"
  by (simp add: mset_shuffle)

lemma length_others:
  "distinct (map id_poem ps) \<Longrightarrow> q \<in> id_poem ` set ps \<Longrightarrow>
   length (filter (\<lambda>p. id_poem p \<noteq> q) ps) = length ps - 1"
proof (induction ps)
  case Nil
  then show ?case by simp
next
  case (Cons p ps)
  show ?case
  proof (cases "id_poem p = q")
    case True
    then have "q \<notin> id_poem ` set ps" using Cons.prems(1) by auto
    then have "filter (\<lambda>p. id_poem p \<noteq> q) ps = ps"
      by (intro filter_True) auto
    then show ?thesis using True by simp
  next
    case False
    then have "q \<in> id_poem ` set ps" using Cons.prems(2) by auto
    moreover from this have "ps \<noteq> []" by auto
    ultimately show ?thesis using False Cons by (cases ps) auto
  qed
qed


lemma find_current_poem:
  "q \<in> id_poem ` set ps \<Longrightarrow> \<exists>cp. find (\<lambda>p. id_poem p = q) ps = Some cp \<and> cp \<in> set ps \<and> id_poem cp = q"
proof (induction ps)
  case Nil
  then show ?case by simp
next
  case (Cons p ps)
  then show ?case by (cases "id_poem p = q") auto
qed

lemma ensure_options_generates:
  assumes "question_list st = Some ql" and "current_question_index st = Some i"
    and "0 \<le> i" and "i < int (length ql)" and "options st = None"
    and "find (\<lambda>p. id_poem p = ql ! nat i) ps = Some cp"
    and "sample rs (map lower (filter (\<lambda>p. id_poem p \<noteq> ql ! nat i) ps)) 3 = Inr ws"
  shows "ensure_options rs ro ps st =
     Inr (st\<lparr>options := Some (shuffle ro (ws @ [lower cp])),
             correct_answer := Some (lower cp)\<rparr>)"
  using assms by (simp add: ensure_options_def getitem_def Let_def)


lemma ensure_options_present:
  assumes "question_list st = Some ql" and "current_question_index st = Some i"
    and "0 \<le> i" and "options st = Some opts"
  shows "ensure_options rs ro ps st = Inr st"
  using assms by (simp add: ensure_options_def getitem_def Let_def)

lemma ensure_options_result:
  assumes ids: "distinct (map id_poem ps)" and size: "4 \<le> length ps"
    and ql: "question_list st = Some ql" and sub: "set ql \<subseteq> id_poem ` set ps"
    and idx: "current_question_index st = Some i" and lo: "0 \<le> i" and hi: "i < int (length ql)"
    and none: "options st = None"
  obtains cp ws where "cp \<in> set ps" and "id_poem cp = ql ! nat i"
    and "length ws = 3"
    and "mset ws \<subseteq># mset (map lower (filter (\<lambda>p. id_poem p \<noteq> ql ! nat i) ps))"
    and "ensure_options rs ro ps st =
           Inr (st\<lparr>options := Some (shuffle ro (ws @ [lower cp])),
                   correct_answer := Some (lower cp)\<rparr>)"
proof -
  let ?q = "ql ! nat i"
  let ?pool = "map lower (filter (\<lambda>p. id_poem p \<noteq> ?q) ps)"
  have "nat i < length ql" using lo hi by simp
  then have "?q \<in> set ql" by (rule nth_mem)
  then have mem: "?q \<in> id_poem ` set ps" using sub by blast
  then obtain cp where cp: "find (\<lambda>p. id_poem p = ?q) ps = Some cp" "cp \<in> set ps" "id_poem cp = ?q"
    using find_current_poem by blast
  have "length ?pool = length ps - 1" using length_others [OF ids mem] by simp
  then have "3 \<le> length ?pool" using size by simp
  then obtain ws where ws: "sample rs ?pool 3 = Inr ws" "length ws = 3" "mset ws \<subseteq># mset ?pool"
    using sample_ok by blast
  have "ensure_options rs ro ps st =
           Inr (st\<lparr>options := Some (shuffle ro (ws @ [lower cp])),
                   correct_answer := Some (lower cp)\<rparr>)"
    using ql idx lo hi none cp(1) ws(1) by (rule ensure_options_generates)
  with cp ws that show ?thesis by blast
qed

lemma ensure_options_settled:
  assumes "ensure_options rs ro ps st = Inr st1"
  shows "\<exists>i ql. current_question_index st1 = Some i \<and> question_list st1 = Some ql
           \<and> (i < int (length ql) \<longrightarrow> (\<exists>q. getitem ql i = Inr q) \<and> options st1 \<noteq> None)"
proof -
  obtain i where i: "current_question_index st = Some i"
    using assms by (cases "current_question_index st") (simp_all add: ensure_options_def)
  obtain ql where ql: "question_list st = Some ql"
    using assms i by (cases "question_list st") (simp_all add: ensure_options_def)
  show ?thesis
  proof (cases "i < int (length ql)")
    case False
    then have "st1 = st" using assms i ql by (simp add: ensure_options_def)
    then show ?thesis using i ql False by simp
  next
    case True
    then obtain q where q: "getitem ql i = Inr q"
      using assms i ql by (cases "getitem ql i") (simp_all add: ensure_options_def)
    show ?thesis
    proof (cases "options st")
      case (Some opts)
      then have "st1 = st" using assms i ql q True by (simp add: ensure_options_def Let_def)
      then show ?thesis using i ql q Some by simp
    next
      case None
      have "options st1 \<noteq> None \<and> current_question_index st1 = Some i \<and> question_list st1 = Some ql"
        using assms i ql q True None
        by (auto simp: ensure_options_def Let_def split: option.splits sum.splits)
      then show ?thesis using q by simp
    qed
  qed
qed

lemma ensure_options_noop:
  assumes "current_question_index st = Some i" and "question_list st = Some ql"
    and "i < int (length ql) \<longrightarrow> (\<exists>q. getitem ql i = Inr q) \<and> options st \<noteq> None"
  shows "ensure_options rs ro ps st = Inr st"
  using assms by (auto simp: ensure_options_def Let_def)

lemma submit_handler_keeps:
  "current_question_index (state_after (submit_handler ua st)) = current_question_index st
   \<and> question_list (state_after (submit_handler ua st)) = question_list st
   \<and> options (state_after (submit_handler ua st)) = options st
   \<and> correct_answer (state_after (submit_handler ua st)) = correct_answer st"
  by (simp add: submit_handler_def state_after_def Let_def split: option.splits)



lemma score_inv_fresh: "score_inv fresh_session"
  by (simp add: score_inv_def fresh_session_def)

lemma score_inv_initialize_quiz:
  "score_inv st \<Longrightarrow> score_inv (initialize_quiz rnd m loaded st)"
  by (cases loaded) (simp_all add: score_inv_def initialize_quiz_def Let_def)

lemma ensure_options_counters:
  "current_question_index (state_after (ensure_options rs ro ps st)) = current_question_index st
   \<and> score (state_after (ensure_options rs ro ps st)) = score st
   \<and> is_answered (state_after (ensure_options rs ro ps st)) = is_answered st"
  by (simp add: ensure_options_def state_after_def Let_def split: option.splits sum.splits)

lemma score_inv_ensure_options:
  "score_inv st \<Longrightarrow> score_inv (state_after (ensure_options rs ro ps st))"
  by (simp add: score_inv_def ensure_options_counters)

lemma score_inv_submit_handler:
  "score_inv st \<Longrightarrow> score_inv (state_after (submit_handler user_answer st))"
  by (auto simp: score_inv_def submit_handler_def state_after_def Let_def
           split: option.splits if_splits)

lemma score_inv_next_handler:
  "score_inv st \<Longrightarrow> score_inv (state_after (next_handler st))"
  by (auto simp: score_inv_def next_handler_def state_after_def Let_def
           split: option.splits if_splits)

lemma reachable_example_answered: "reachable example_answered"
  unfolding example_answered_def example_asked_def example_started_def
  by (intro reachable.submit reachable.ensure reachable.init reachable.fresh)

lemma reachable_score_inv:
  assumes "reachable st"
  shows "score_inv st"
  using assms
proof (induction rule: reachable.induct)
  case fresh
  show ?case by (rule score_inv_fresh)
next
  case (init st rnd m loaded)
  then show ?case by (simp add: score_inv_initialize_quiz)
next
  case (ensure st rs ro ps)
  then show ?case by (simp add: score_inv_ensure_options)
next
  case (submit st user_answer)
  then show ?case by (simp add: score_inv_submit_handler)
next
  case (advance st)
  then show ?case by (simp add: score_inv_next_handler)
qed

lemma question_page_steps:
  "snd (question_page inp q_index st2) = st2
   \<or> snd (question_page inp q_index st2) = state_after (next_handler st2)
   \<or> snd (question_page inp q_index st2) = state_after (submit_handler (radio_value inp) st2)"
proof (cases "options st2")
  case None
  then show ?thesis by (simp add: question_page_def)
next
  case (Some opts)
  show ?thesis
  proof (cases "is_answered st2")
    case None
    then show ?thesis using Some by (simp add: question_page_def)
  next
    case (Some a)
    show ?thesis
    proof (cases a)
      case True
      have "snd (case next_handler st2 of Inl (e, s) \<Rightarrow> (Raised e, s) | Inr s \<Rightarrow> (Rerun, s))
            = state_after (next_handler st2)"
        by (cases "next_handler st2") (auto simp: state_after_def)
      then show ?thesis using True Some \<open>options st2 = Some opts\<close>
        by (simp add: question_page_def)
    next
      case False
      have "snd (case submit_handler (radio_value inp) st2 of
                   Inl (e, s) \<Rightarrow> (Raised e, s) | Inr s \<Rightarrow> (Rerun, s))
            = state_after (submit_handler (radio_value inp) st2)"
        by (cases "submit_handler (radio_value inp) st2") (auto simp: state_after_def)
      then show ?thesis using False Some \<open>options st2 = Some opts\<close>
        by (simp add: question_page_def)
    qed
  qed
qed

lemma result_page_steps:
  "snd (result_page inp loaded ql st2) = st2
   \<or> (\<exists>m. snd (result_page inp loaded ql st2) = initialize_quiz (rnd_order inp) m loaded st2)"
proof (cases "score st2")
  case None
  then show ?thesis by (simp add: result_page_def)
next
  case (Some sc)
  show ?thesis
  proof (cases "mode st2")
    case None
    then show ?thesis using Some by (simp add: result_page_def)
  next
    case m: (Some m)
    show ?thesis
    proof (cases "retry_button inp")
      case True
      then have "snd (result_page inp loaded ql st2)
                 = initialize_quiz (rnd_order inp) m loaded st2"
        using Some m by (simp add: result_page_def)
      then show ?thesis by (intro disjI2 exI)
    next
      case False
      then show ?thesis using Some by (simp add: result_page_def)
    qed
  qed
qed

lemma reachable_question_page:
  assumes "reachable st2"
  shows "reachable (snd (question_page inp q_index st2))"
  using question_page_steps [of inp q_index st2]
    reachable.advance [OF assms] reachable.submit [OF assms, of "radio_value inp"] assms
  by (elim disjE) simp_all

lemma reachable_result_page:
  assumes "reachable st2"
  shows "reachable (snd (result_page inp loaded ql st2))"
  using result_page_steps [of inp loaded ql st2] reachable.init [OF assms] assms
  by (elim disjE exE) simp_all

lemma script_steps:
  assumes "reachable st"
  shows "reachable (snd (script inp loaded st))"
proof (cases loaded)
  case None
  then show ?thesis using assms by (simp add: script_def)
next
  case (Some ps)
  show ?thesis
  proof (cases "ps = []")
    case True
    then show ?thesis using assms Some by (simp add: script_def)
  next
    case False
    define st1 where "st1 = (if mode st = None \<or> mode st \<noteq> Some (mode_selector inp)
                        then initialize_quiz (rnd_order inp) (mode_selector inp) loaded st
                        else st)"
    have r1: "reachable st1" using assms by (simp add: st1_def reachable.init)
    define r where "r = ensure_options (rnd_sample inp) (rnd_options inp) ps st1"
    have r2: "reachable (state_after r)" unfolding r_def using r1 by (rule reachable.ensure)
    have sc: "script inp loaded st =
                (case r of
                  Inl (e, s) \<Rightarrow> (Raised e, s)
                | Inr st2 \<Rightarrow>
                    (case current_question_index st2 of
                       None \<Rightarrow> (Raised AttributeError, st2)
                     | Some q_index \<Rightarrow>
                    (case question_list st2 of
                       None \<Rightarrow> (Raised AttributeError, st2)
                     | Some ql \<Rightarrow>
                         if q_index < int (length ql) then
                           (case getitem ql q_index of
                              Inl e \<Rightarrow> (Raised e, st2)
                            | Inr q_id \<Rightarrow>
                                (case find (\<lambda>p. id_poem p = q_id) ps of
                                   None \<Rightarrow> (Raised TypeError, st2)
                                 | Some current_poem \<Rightarrow> question_page inp q_index st2))
                         else result_page inp loaded ql st2)))"
      unfolding script_def Let_def r_def st1_def Some using False by simp
    show ?thesis
    proof (cases r)
      case (Inl es)
      obtain e s where es: "es = (e, s)" by (cases es)
      have "snd (script inp loaded st) = s"
        unfolding sc using Inl es by simp
      then show ?thesis using r2 Inl es by (simp add: state_after_def)
    next
      case (Inr st2)
      then have r3: "reachable st2" using r2 by (simp add: state_after_def)
      show ?thesis unfolding sc Inr
        using r3 reachable_question_page [OF r3] reachable_result_page [OF r3]
        by (simp split: option.splits sum.splits)
    qed
  qed
qed


section \<open>The claims\<close>

subsection \<open>C8: the question order\<close>

text \<open>
  C8. The list \<^verbatim>\<open>question_list\<close> left by \<^verbatim>\<open>initialize_quiz\<close> is a permutation of the ids of
  the corpus, in either mode and whatever the draws: the same multiset, so no id is omitted
  and none is added, and in the mode ordered by id it is ascending. For a corpus whose ids
  are unique (the invariant of the data model) it has no duplicates and, in the mode ordered
  by id, is strictly ascending. The corpus may even be empty.
\<close>

theorem initialize_quiz_order:
  "\<exists>ql. question_list (initialize_quiz rnd m (Some ps) st) = Some ql
         \<and> mset ql = mset (map id_poem ps)
         \<and> set ql = id_poem ` set ps \<and> length ql = length ps
         \<and> (m = IdOrder \<longrightarrow> sorted ql)
         \<and> (distinct (map id_poem ps) \<longrightarrow>
               distinct ql \<and> (m = IdOrder \<longrightarrow> sorted_wrt (<) ql))"
proof -
  let ?ql = "if m = Random then shuffle rnd (map id_poem ps) else sort (map id_poem ps)"
  have q: "question_list (initialize_quiz rnd m (Some ps) st) = Some ?ql"
    by (simp add: initialize_quiz_loaded)
  have ms: "mset ?ql = mset (map id_poem ps)" by (rule mset_order)
  have s: "set ?ql = id_poem ` set ps" using mset_eq_setD [OF ms] by simp
  have l: "length ?ql = length ps" using mset_eq_length [OF ms] by simp
  have o: "m = IdOrder \<longrightarrow> sorted ?ql" by simp
  have d: "distinct (map id_poem ps) \<longrightarrow> distinct ?ql \<and> (m = IdOrder \<longrightarrow> sorted_wrt (<) ?ql)"
  proof
    assume u: "distinct (map id_poem ps)"
    have "distinct ?ql" using mset_eq_imp_distinct_iff [OF ms] u by simp
    moreover have "m = IdOrder \<longrightarrow> sorted_wrt (<) ?ql"
      using u by (simp add: strict_sorted_iff)
    ultimately show "distinct ?ql \<and> (m = IdOrder \<longrightarrow> sorted_wrt (<) ?ql)" by simp
  qed
  from q ms s l o d show ?thesis by (intro exI conjI)
qed

theorem initialize_quiz_order_witness:
  "distinct (map id_poem example_corpus)
   \<and> (\<exists>ql. question_list
               (initialize_quiz zero_draws IdOrder (Some example_corpus) fresh_session) = Some ql
          \<and> mset ql = mset (map id_poem example_corpus)
          \<and> distinct ql \<and> length ql = length example_corpus \<and> sorted_wrt (<) ql)"
proof -
  have h: "distinct (map id_poem example_corpus)" by code_simp
  show ?thesis
    using h initialize_quiz_order [of zero_draws IdOrder example_corpus fresh_session] by blast
qed

subsection \<open>C7: four options with the answer among them\<close>

text \<open>
  C7. For a corpus of at least four poems with unique ids (the invariant of the data model)
  and an index inside the question list, whose entries are ids of the corpus, option
  generation succeeds whatever the draws: it stores exactly four options, the stored answer
  is one of them, and the answer is the second half of the one poem whose id is the entry of
  the question list at the index.
\<close>

theorem ensure_options_four_with_answer:
  assumes "distinct (map id_poem ps)" and "4 \<le> length ps"
    and "question_list st = Some ql" and "set ql \<subseteq> id_poem ` set ps"
    and "current_question_index st = Some i" and "0 \<le> i" and "i < int (length ql)"
    and "options st = None"
  shows "\<exists>st' opts c cp. ensure_options rs ro ps st = Inr st'
           \<and> options st' = Some opts \<and> correct_answer st' = Some c
           \<and> length opts = 4 \<and> c \<in> set opts
           \<and> cp \<in> set ps \<and> id_poem cp = ql ! nat i \<and> lower cp = c
           \<and> (\<forall>p \<in> set ps. id_poem p = ql ! nat i \<longrightarrow> p = cp)"
proof -
  obtain cp ws where cp: "cp \<in> set ps" "id_poem cp = ql ! nat i" and ws: "length ws = 3"
    and res: "ensure_options rs ro ps st =
           Inr (st\<lparr>options := Some (shuffle ro (ws @ [lower cp])),
                   correct_answer := Some (lower cp)\<rparr>)"
    using ensure_options_result [OF assms] by blast
  let ?opts = "shuffle ro (ws @ [lower cp])"
  have len: "length ?opts = 4" using ws by (simp add: length_shuffle)
  have mem: "lower cp \<in> set ?opts" by (simp add: set_shuffle)
  have inj: "inj_on id_poem (set ps)" using assms(1) by (simp add: distinct_map)
  have uniq: "\<forall>p \<in> set ps. id_poem p = ql ! nat i \<longrightarrow> p = cp"
  proof (intro ballI impI)
    fix p assume p: "p \<in> set ps" and "id_poem p = ql ! nat i"
    then have "id_poem p = id_poem cp" using cp(2) by simp
    with inj show "p = cp" using p cp(1) by (rule inj_onD)
  qed
  let ?st' = "st\<lparr>options := Some ?opts, correct_answer := Some (lower cp)\<rparr>"
  have o: "options ?st' = Some ?opts" by simp
  have c: "correct_answer ?st' = Some (lower cp)" by simp
  have l: "lower cp = lower cp" by simp
  from res o c len mem cp l uniq show ?thesis by (intro exI conjI)
qed

theorem ensure_options_four_with_answer_witness:
  "distinct (map id_poem example_corpus) \<and> 4 \<le> length example_corpus
   \<and> question_list example_started = Some [1, 2, 3, 4, 5]
   \<and> set [1, 2, 3, 4, 5] \<subseteq> id_poem ` set example_corpus
   \<and> current_question_index example_started = Some 0
   \<and> options example_started = None
   \<and> (\<exists>st' opts c cp. ensure_options zero_draws zero_draws example_corpus example_started = Inr st'
           \<and> options st' = Some opts \<and> correct_answer st' = Some c
           \<and> length opts = 4 \<and> c \<in> set opts
           \<and> cp \<in> set example_corpus \<and> id_poem cp = 1 \<and> lower cp = c)"
proof -
  have h1: "distinct (map id_poem example_corpus)" by code_simp
  have h2: "4 \<le> length example_corpus" by code_simp
  have h3: "question_list example_started = Some [1, 2, 3, 4, 5]" by code_simp
  have h4: "set [1, 2, 3, 4, 5] \<subseteq> id_poem ` set example_corpus"
    by code_simp
  have h5: "current_question_index example_started = Some 0" by code_simp
  have h6: "(0::int) \<le> 0" by simp
  have h7: "(0::int) < int (length [1, 2, 3, 4, 5::int])" by simp
  have h8: "options example_started = None" by code_simp
  obtain st' opts c cp where r: "ensure_options zero_draws zero_draws example_corpus example_started = Inr st'"
      "options st' = Some opts" "correct_answer st' = Some c" "length opts = 4" "c \<in> set opts"
      "cp \<in> set example_corpus" "id_poem cp = [1, 2, 3, 4, 5] ! nat 0" "lower cp = c"
    using ensure_options_four_with_answer [OF h1 h2 h3 h4 h5 h6 h7 h8, of zero_draws zero_draws]
    by blast
  have "id_poem cp = 1" using r(7) by simp
  with r have "\<exists>st' opts c cp. ensure_options zero_draws zero_draws example_corpus example_started = Inr st'
           \<and> options st' = Some opts \<and> correct_answer st' = Some c
           \<and> length opts = 4 \<and> c \<in> set opts
           \<and> cp \<in> set example_corpus \<and> id_poem cp = 1 \<and> lower cp = c"
    by blast
  with h1 h2 h3 h4 h5 h8 show ?thesis by (intro conjI)
qed

subsection \<open>C5: distinct options\<close>

text \<open>
  C5 as stated fails: four different second halves in the corpus are not enough. In the
  corpus below the first two poems share their second half, so the corpus has four
  different second halves; for the first poem the decoys are drawn from the other four
  poems by position, the twin is drawn, and the stored options repeat a string.
\<close>

theorem ensure_options_duplicate_counterexample:
  "card (lower ` set twin_corpus) = 4
   \<and> ensure_options zero_draws zero_draws twin_corpus
         (initialize_quiz zero_draws IdOrder (Some twin_corpus) fresh_session)
       = Inr ((initialize_quiz zero_draws IdOrder (Some twin_corpus) fresh_session)
               \<lparr>options := Some [''l5'', ''l4'', ''same'', ''same''],
                correct_answer := Some ''same''\<rparr>)
   \<and> \<not> distinct [''l5'', ''l4'', ''same'', ''same'']"
  by code_simp

text \<open>
  C5, amended. For a corpus of at least four poems with unique ids whose second halves are
  pairwise different, option generation succeeds whatever the draws and the four stored
  options are pairwise different.
\<close>

theorem ensure_options_distinct:
  assumes "distinct (map id_poem ps)" and "4 \<le> length ps"
    and lowers: "distinct (map lower ps)"
    and "question_list st = Some ql" and "set ql \<subseteq> id_poem ` set ps"
    and "current_question_index st = Some i" and "0 \<le> i" and "i < int (length ql)"
    and "options st = None"
  shows "\<exists>st' opts. ensure_options rs ro ps st = Inr st'
           \<and> options st' = Some opts \<and> length opts = 4 \<and> distinct opts"
proof -
  let ?pool = "map lower (filter (\<lambda>p. id_poem p \<noteq> ql ! nat i) ps)"
  obtain cp ws where cp: "cp \<in> set ps" "id_poem cp = ql ! nat i" and ws: "length ws = 3"
    and sub: "mset ws \<subseteq># mset ?pool"
    and res: "ensure_options rs ro ps st =
           Inr (st\<lparr>options := Some (shuffle ro (ws @ [lower cp])),
                   correct_answer := Some (lower cp)\<rparr>)"
    using ensure_options_result [OF assms(1,2,4-9)] by blast
  let ?opts = "shuffle ro (ws @ [lower cp])"
  let ?st' = "st\<lparr>options := Some ?opts, correct_answer := Some (lower cp)\<rparr>"
  have "distinct ?pool" using lowers by (rule distinct_map_filter)
  with sub have dws: "distinct ws" by (rule distinct_submultiset)
  have inj: "inj_on lower (set ps)" using lowers by (simp add: distinct_map)
  have "lower cp \<notin> set ?pool"
  proof
    assume "lower cp \<in> set ?pool"
    then obtain p where p: "p \<in> set ps" "id_poem p \<noteq> ql ! nat i" "lower p = lower cp"
      by auto
    from inj p(3) p(1) cp(1) have "p = cp" by (rule inj_onD)
    with p(2) cp(2) show False by simp
  qed
  moreover have "set ws \<subseteq> set ?pool" using sub by (rule set_submultiset)
  ultimately have "lower cp \<notin> set ws" by blast
  with dws have "distinct (ws @ [lower cp])" by simp
  then have d: "distinct ?opts" by (simp add: distinct_shuffle)
  have len: "length ?opts = 4" using ws by (simp add: length_shuffle)
  have o: "options ?st' = Some ?opts" by simp
  from res o len d show ?thesis by (intro exI conjI)
qed

theorem ensure_options_distinct_witness:
  "distinct (map id_poem example_corpus) \<and> 4 \<le> length example_corpus
   \<and> distinct (map lower example_corpus)
   \<and> question_list example_started = Some [1, 2, 3, 4, 5]
   \<and> set [1, 2, 3, 4, 5] \<subseteq> id_poem ` set example_corpus
   \<and> current_question_index example_started = Some 0
   \<and> options example_started = None
   \<and> (\<exists>st' opts. ensure_options zero_draws zero_draws example_corpus example_started = Inr st'
           \<and> options st' = Some opts \<and> length opts = 4 \<and> distinct opts)"
proof -
  have h1: "distinct (map id_poem example_corpus)" by code_simp
  have h2: "4 \<le> length example_corpus" by code_simp
  have h3: "distinct (map lower example_corpus)" by code_simp
  have h4: "question_list example_started = Some [1, 2, 3, 4, 5]" by code_simp
  have h5: "set [1, 2, 3, 4, 5] \<subseteq> id_poem ` set example_corpus" by code_simp
  have h6: "current_question_index example_started = Some 0" by code_simp
  have h7: "(0::int) \<le> 0" by simp
  have h8: "(0::int) < int (length [1, 2, 3, 4, 5::int])" by simp
  have h9: "options example_started = None" by code_simp
  from h1 h2 h3 h4 h5 h6 h9
    ensure_options_distinct [OF h1 h2 h3 h4 h5 h6 h7 h8 h9, of zero_draws zero_draws]
  show ?thesis by (intro conjI)
qed

subsection \<open>C9: options are generated once per question\<close>

text \<open>
  C9. Once option generation has returned, calling it again changes nothing, whatever the
  new draws: the session is returned as it is, so the stored options and the stored answer
  stay. The same holds after the answer has been submitted, which is every state before the
  move to the next question.
\<close>

theorem ensure_options_idempotent:
  assumes "ensure_options rs ro ps st = Inr st1"
  shows "ensure_options rs' ro' ps' st1 = Inr st1
         \<and> ensure_options rs' ro' ps' (state_after (submit_handler user_answer st1))
             = Inr (state_after (submit_handler user_answer st1))
         \<and> options (state_after (submit_handler user_answer st1)) = options st1
         \<and> correct_answer (state_after (submit_handler user_answer st1)) = correct_answer st1"
proof -
  obtain i ql where s: "current_question_index st1 = Some i" "question_list st1 = Some ql"
     "i < int (length ql) \<longrightarrow> (\<exists>q. getitem ql i = Inr q) \<and> options st1 \<noteq> None"
    using ensure_options_settled [OF assms] by blast
  let ?st2 = "state_after (submit_handler user_answer st1)"
  have k: "current_question_index ?st2 = Some i" "question_list ?st2 = Some ql"
      "options ?st2 = options st1" "correct_answer ?st2 = correct_answer st1"
    using submit_handler_keeps [of user_answer st1] s by simp_all
  have s2: "i < int (length ql) \<longrightarrow> (\<exists>q. getitem ql i = Inr q) \<and> options ?st2 \<noteq> None"
    using s(3) k(3) by simp
  have a: "ensure_options rs' ro' ps' st1 = Inr st1"
    using s by (rule ensure_options_noop)
  have b: "ensure_options rs' ro' ps' ?st2 = Inr ?st2"
    using k(1,2) s2 by (rule ensure_options_noop)
  from a b k(3,4) show ?thesis by (intro conjI)
qed

theorem ensure_options_idempotent_witness:
  "ensure_options zero_draws zero_draws example_corpus example_started = Inr example_asked
   \<and> ensure_options (\<lambda>i. i) (\<lambda>i. 1) example_corpus example_asked = Inr example_asked
   \<and> options example_answered = options example_asked"
proof -
  have h: "ensure_options zero_draws zero_draws example_corpus example_started = Inr example_asked"
    by code_simp
  from h ensure_options_idempotent [OF h, of "\<lambda>i. i" "\<lambda>i. 1" example_corpus "''l1''"]
  show ?thesis by (simp add: example_answered_def)
qed

subsection \<open>C6: submitting an answer\<close>

text \<open>
  C6. When a question is left (the index is inside the question list) and it is not answered
  yet, the submit button stores the chosen string as \<^verbatim>\<open>user_last_answer\<close>, marks the question
  answered, and adds exactly one to the score if the chosen string equals the stored answer;
  otherwise the score stays. Nothing else changes.
\<close>

theorem submit_handler_effect:
  assumes "current_question_index st = Some i" and "question_list st = Some ql"
    and "i < int (length ql)" and "is_answered st = Some False"
    and "correct_answer st = Some c" and "score st = Some s"
  shows "submit_handler choice st =
           Inr (if choice = c
                then st\<lparr>user_last_answer := Some choice, is_answered := Some True,
                        score := Some (s + 1)\<rparr>
                else st\<lparr>user_last_answer := Some choice, is_answered := Some True\<rparr>)"
  using assms by (simp add: submit_handler_def Let_def)

theorem submit_handler_effect_witness:
  "current_question_index example_asked = Some 0
   \<and> question_list example_asked = Some [1, 2, 3, 4, 5]
   \<and> is_answered example_asked = Some False
   \<and> correct_answer example_asked = Some ''l1'' \<and> score example_asked = Some 0
   \<and> submit_handler ''l1'' example_asked =
        Inr (example_asked\<lparr>user_last_answer := Some ''l1'', is_answered := Some True,
                           score := Some 1\<rparr>)
   \<and> submit_handler ''l4'' example_asked =
        Inr (example_asked\<lparr>user_last_answer := Some ''l4'', is_answered := Some True\<rparr>)"
proof -
  have h1: "current_question_index example_asked = Some 0" by code_simp
  have h2: "question_list example_asked = Some [1, 2, 3, 4, 5]" by code_simp
  have h3: "(0::int) < int (length [1, 2, 3, 4, 5::int])" by simp
  have h4: "is_answered example_asked = Some False" by code_simp
  have h5: "correct_answer example_asked = Some ''l1''" by code_simp
  have h6: "score example_asked = Some 0" by code_simp
  have a: "submit_handler ''l1'' example_asked =
        Inr (example_asked\<lparr>user_last_answer := Some ''l1'', is_answered := Some True,
                           score := Some 1\<rparr>)"
    using submit_handler_effect [OF h1 h2 h3 h4 h5 h6, of "''l1''"] by simp
  have b: "submit_handler ''l4'' example_asked =
        Inr (example_asked\<lparr>user_last_answer := Some ''l4'', is_answered := Some True\<rparr>)"
    using submit_handler_effect [OF h1 h2 h3 h4 h5 h6, of "''l4''"] by simp
  from h1 h2 h4 h5 h6 a b show ?thesis by (intro conjI)
qed

subsection \<open>C4: moving to the next question\<close>

text \<open>
  C4 as stated fails: the button for the next question deletes \<^verbatim>\<open>options\<close> and
  \<^verbatim>\<open>user_last_answer\<close>, but not \<^verbatim>\<open>correct_answer\<close>. After answering the first question of the
  example and moving on, the answer of the first question is still stored.
\<close>

theorem next_handler_keeps_answer_counterexample:
  "is_answered example_answered = Some True
   \<and> correct_answer example_answered = Some ''l1''
   \<and> next_handler example_answered =
        Inr (example_answered\<lparr>current_question_index := Some 1, is_answered := Some False,
                              options := None, user_last_answer := None\<rparr>)
   \<and> correct_answer (state_after (next_handler example_answered)) = Some ''l1''
   \<and> correct_answer (state_after (next_handler example_answered)) \<noteq> None"
  by code_simp

text \<open>
  C4, amended. On an answered question the button for the next question adds one to the
  index, marks the question unanswered and deletes \<^verbatim>\<open>options\<close> and \<^verbatim>\<open>user_last_answer\<close>; the
  key \<^verbatim>\<open>correct_answer\<close> keeps its value until the next option generation overwrites it.
\<close>

theorem next_handler_effect:
  assumes "current_question_index st = Some i" and "question_list st = Some ql"
    and "i < int (length ql)" and "is_answered st = Some True"
    and "options st = Some opts" and "user_last_answer st = Some u"
  shows "next_handler st =
           Inr (st\<lparr>current_question_index := Some (i + 1), is_answered := Some False,
                   options := None, user_last_answer := None\<rparr>)
         \<and> correct_answer (state_after (next_handler st)) = correct_answer st"
  using assms by (simp add: next_handler_def state_after_def Let_def)

theorem next_handler_effect_witness:
  "current_question_index example_answered = Some 0
   \<and> question_list example_answered = Some [1, 2, 3, 4, 5]
   \<and> is_answered example_answered = Some True
   \<and> options example_answered = Some [''l4'', ''l5'', ''l1'', ''l3'']
   \<and> user_last_answer example_answered = Some ''l1''
   \<and> next_handler example_answered =
        Inr (example_answered\<lparr>current_question_index := Some 1, is_answered := Some False,
                              options := None, user_last_answer := None\<rparr>)
   \<and> correct_answer (state_after (next_handler example_answered))
        = correct_answer example_answered"
proof -
  have h1: "current_question_index example_answered = Some 0" by code_simp
  have h2: "question_list example_answered = Some [1, 2, 3, 4, 5]" by code_simp
  have h3: "(0::int) < int (length [1, 2, 3, 4, 5::int])" by simp
  have h4: "is_answered example_answered = Some True" by code_simp
  have h5: "options example_answered = Some [''l4'', ''l5'', ''l1'', ''l3'']" by code_simp
  have h6: "user_last_answer example_answered = Some ''l1''" by code_simp
  have r: "next_handler example_answered =
        Inr (example_answered\<lparr>current_question_index := Some 1, is_answered := Some False,
                              options := None, user_last_answer := None\<rparr>)
     \<and> correct_answer (state_after (next_handler example_answered))
        = correct_answer example_answered"
    using next_handler_effect [OF h1 h2 h3 h4 h5 h6] by (simp add: state_after_def)
  from h1 h2 h4 h5 h6 r [THEN conjunct1] r [THEN conjunct2] show ?thesis by (intro conjI)
qed

subsection \<open>C3: failures and the session\<close>

text \<open>
  C3 as stated fails for \<^verbatim>\<open>initialize_quiz\<close>: it writes \<^verbatim>\<open>mode\<close> and \<^verbatim>\<open>all_poems\<close> before it
  finds the corpus missing. Called on the answered example session with the other mode and
  no corpus, it overwrites both keys.
\<close>

theorem initialize_quiz_missing_counterexample:
  "mode example_answered = Some IdOrder
   \<and> all_poems example_answered = Some (Some example_corpus)
   \<and> mode (initialize_quiz zero_draws Random None example_answered) = Some Random
   \<and> all_poems (initialize_quiz zero_draws Random None example_answered) = Some None
   \<and> initialize_quiz zero_draws Random None example_answered \<noteq> example_answered"
  by code_simp

text \<open>
  C3, amended. A run whose corpus load fails shows the error and leaves the session as it
  was. \<^verbatim>\<open>initialize_quiz\<close> on a missing corpus returns early: it has overwritten \<^verbatim>\<open>mode\<close>
  with the new mode and \<^verbatim>\<open>all_poems\<close> with the null corpus, and every other key is as before.
\<close>

theorem failure_effects:
  "script inp None st = (Shown LoadError, st)
   \<and> initialize_quiz rnd m None st = st\<lparr>mode := Some m, all_poems := Some None\<rparr>
   \<and> question_list (initialize_quiz rnd m None st) = question_list st
   \<and> current_question_index (initialize_quiz rnd m None st) = current_question_index st
   \<and> score (initialize_quiz rnd m None st) = score st
   \<and> is_answered (initialize_quiz rnd m None st) = is_answered st
   \<and> options (initialize_quiz rnd m None st) = options st
   \<and> correct_answer (initialize_quiz rnd m None st) = correct_answer st
   \<and> user_last_answer (initialize_quiz rnd m None st) = user_last_answer st"
  by (simp add: script_def initialize_quiz_missing)

theorem failure_effects_witness:
  "script example_inputs None example_answered = (Shown LoadError, example_answered)
   \<and> initialize_quiz zero_draws Random None example_answered
       = example_answered\<lparr>mode := Some Random, all_poems := Some None\<rparr>
   \<and> score (initialize_quiz zero_draws Random None example_answered) = Some 1"
proof -
  note t = failure_effects [of example_inputs example_answered zero_draws Random]
  have s: "score example_answered = Some 1" by code_simp
  have a: "script example_inputs None example_answered = (Shown LoadError, example_answered)"
    using t by blast
  have b: "initialize_quiz zero_draws Random None example_answered
       = example_answered\<lparr>mode := Some Random, all_poems := Some None\<rparr>"
    using t by blast
  have "score (initialize_quiz zero_draws Random None example_answered) = score example_answered"
    using t by blast
  with s have c: "score (initialize_quiz zero_draws Random None example_answered) = Some 1"
    by simp
  from a b c show ?thesis by (intro conjI)
qed

subsection \<open>C1: a corpus that is too small\<close>




subsection \<open>C2: the score and the index\<close>

text \<open>
  C2 as stated fails: the submit button adds to the score and leaves the index, so after a
  correct answer to the first question the score is 1 and the index is still 0. The session
  is reached by initialising, generating options and submitting the right answer.
\<close>

theorem score_exceeds_index_counterexample:
  "reachable example_answered
   \<and> score example_answered = Some 1 \<and> current_question_index example_answered = Some 0
   \<and> \<not> ((1::int) \<le> 0)"
proof -
  have "score example_answered = Some 1 \<and> current_question_index example_answered = Some 0"
    by code_simp
  with reachable_example_answered show ?thesis by simp
qed

text \<open>
  C2, amended. In every session reached from a fresh one by any sequence of initialisation,
  option generation, submitting and moving on (with any corpus, answers and draws, and
  whether the operation returned or raised), the score is at least 0 and at most the index
  while the current question is unanswered, and at most the index plus one once it is
  answered. Any run of the script keeps this.
\<close>

theorem reachable_score_bounds:
  assumes "reachable st"
  shows "score_inv st
         \<and> (\<forall>i s a. current_question_index st = Some i \<longrightarrow> score st = Some s \<longrightarrow>
                    is_answered st = Some a \<longrightarrow> 0 \<le> s \<and> s \<le> (if a then i + 1 else i))
         \<and> score_inv (snd (script inp loaded st))"
proof -
  have a: "score_inv st" using assms by (rule reachable_score_inv)
  have b: "\<forall>i s a. current_question_index st = Some i \<longrightarrow> score st = Some s \<longrightarrow>
                    is_answered st = Some a \<longrightarrow> 0 \<le> s \<and> s \<le> (if a then i + 1 else i)"
  proof (intro allI impI)
    fix i s b
    assume "current_question_index st = Some i" and "score st = Some s"
      and "is_answered st = Some b"
    then show "0 \<le> s \<and> s \<le> (if b then i + 1 else i)"
      using a by (simp add: score_inv_def)
  qed
  have "reachable (snd (script inp loaded st))" using assms by (rule script_steps)
  then have c: "score_inv (snd (script inp loaded st))" by (rule reachable_score_inv)
  from a b c show ?thesis by (intro conjI)
qed

theorem reachable_score_bounds_witness:
  "reachable example_answered
   \<and> current_question_index example_answered = Some 0
   \<and> score example_answered = Some 1
   \<and> is_answered example_answered = Some True
   \<and> score_inv example_answered
   \<and> (1::int) \<le> 0 + 1"
proof -
  have i: "current_question_index example_answered = Some 0"
    and s: "score example_answered = Some 1"
    and a: "is_answered example_answered = Some True"
    by code_simp+
  note t = reachable_score_bounds [OF reachable_example_answered, of example_inputs None]
  have v: "score_inv example_answered" using t by (rule conjunct1)
  have "(0::int) \<le> 1 \<and> 1 \<le> (if True then (0::int) + 1 else 0)"
    using t i s a by blast
  then have b: "(1::int) \<le> 0 + 1" by simp
  from reachable_example_answered i s a v b show ?thesis by (intro conjI)
qed

subsection \<open>C10: grading compares strings\<close>




end
